theory Spec2Isabelle
  imports Main "HOL-Library.Sublist" "HOL-Library.Word"
begin

section \<open>TreeDiff: the per-commit list of tree changes (tree\_diff.go)\<close>

text \<open>
  The pipeline item \<open>TreeDiff\<close> keeps the tree of the previously consumed commit and, for
  every commit, returns the changes between that tree and the commit's tree; the first
  commit is listed file by file. Changes under blacklisted directory prefixes are removed
  when the option is switched on.

  The git library (commits, trees, file iterators, \<open>object.DiffTree\<close>) is not part of the
  file. Its operations are the fields of a record \<open>backend\<close>, and every theorem holds for
  every backend.
\<close>

subsection \<open>Data of the git library\<close>

type_synonym hash = "8 word list"      \<comment> \<open>\<open>plumbing.Hash\<close>, \<open>[20]byte\<close>\<close>
type_synonym filemode = "32 word"      \<comment> \<open>\<open>filemode.FileMode\<close>, \<open>uint32\<close>\<close>

definition ZeroHash :: hash where
  "ZeroHash = replicate 20 0"

text \<open>\<open>object.TreeEntry\<close>: \<open>Name\<close>, \<open>Mode\<close>, \<open>Hash\<close>.\<close>

record treeEntry =
  te_Name :: string
  te_Mode :: filemode
  te_Hash :: hash

text \<open>
  \<open>object.ChangeEntry\<close>: \<open>Name\<close> (the full path), \<open>Tree\<close> (a pointer, \<open>nil\<close> is \<open>None\<close>)
  and \<open>TreeEntry\<close>. The type \<open>'t\<close> is that of tree snapshots.
\<close>

record 't changeEntry =
  ce_Name :: string
  ce_Tree :: "'t option"
  ce_TreeEntry :: treeEntry

text \<open>\<open>object.Change\<close>: the entry before (\<open>From\<close>) and the entry after (\<open>To\<close>).\<close>

record 't change =
  From :: "'t changeEntry"
  To :: "'t changeEntry"

text \<open>
  Go's zero values. A \<open>Change\<close> literal that sets only \<open>To\<close> leaves \<open>From\<close> at the zero
  \<open>ChangeEntry\<close>; the git library reads a zero entry as "no entry on this side".
\<close>

definition zeroTreeEntry :: treeEntry where
  "zeroTreeEntry = \<lparr>te_Name = [], te_Mode = 0, te_Hash = ZeroHash\<rparr>"

definition zeroChangeEntry :: "'t changeEntry" where
  "zeroChangeEntry = \<lparr>ce_Name = [], ce_Tree = None, ce_TreeEntry = zeroTreeEntry\<rparr>"

definition present :: "'t changeEntry \<Rightarrow> bool" where
  "present e = (e \<noteq> zeroChangeEntry)"

text \<open>\<open>object.File\<close>, as far as \<open>Consume\<close> reads it: \<open>Name\<close>, \<open>Mode\<close>, \<open>Hash\<close>.\<close>

record File =
  file_Name :: string
  file_Mode :: filemode
  file_Hash :: hash

text \<open>Error values: \<open>io.EOF\<close> and every other error.\<close>

datatype error = EOF | Failure string

text \<open>
  \<open>object.FileIter\<close>: the files it still yields, the error \<open>Next\<close> returns once they are
  used up (\<open>io.EOF\<close> at the natural end), and whether \<open>Close\<close> has been called. A tree
  holds finitely many files, so the files to come are a list, and the loop that drains
  an iterator ends.
\<close>

record fileIter =
  yields :: "File list"
  ending :: error
  closed :: bool

definition Next :: "fileIter \<Rightarrow> (error + File) \<times> fileIter" where
  "Next it =
     (case yields it of
        [] \<Rightarrow> (Inl (ending it), it)
      | f # fs \<Rightarrow> (Inr f, it\<lparr>yields := fs\<rparr>))"

definition Close :: "fileIter \<Rightarrow> fileIter" where
  "Close it = it\<lparr>closed := True\<rparr>"

text \<open>
  The operations of the git library that \<open>Consume\<close> calls: \<open>commit.Tree()\<close>,
  \<open>tree.Files()\<close> and \<open>object.DiffTree(a, b)\<close>. \<open>'c\<close> is the type of commits.
\<close>

record ('c, 't) backend =
  commit_Tree :: "'c \<Rightarrow> error + 't"
  tree_Files :: "'t \<Rightarrow> fileIter"
  DiffTree :: "'t \<Rightarrow> 't \<Rightarrow> error + 't change list"

subsection \<open>The pipeline item\<close>

record 't treeDiff =
  previousTree :: "'t option"
  SkipDirs :: "string list"

definition DependencyTreeChanges :: string where
  "DependencyTreeChanges = ''changes''"

definition ConfigTreeDiffSkipBlacklist :: string where
  "ConfigTreeDiffSkipBlacklist = ''TreeDiff.SkipVendor''"

definition ConfigTreeDiffBlacklistedDirs :: string where
  "ConfigTreeDiffBlacklistedDirs = ''TreeDiff.BlacklistedDirs''"

definition defaultBlacklistedDirs :: "string list" where
  "defaultBlacklistedDirs = [''vendor/'', ''vendors/'', ''node_modules/'']"

text \<open>
  A value of type \<open>interface{}\<close> in the facts map: a \<open>bool\<close>, a \<open>[]string\<close>, or anything
  else (\<open>nil\<close> included).
\<close>

datatype iface = BoolVal bool | StringsVal "string list" | StringVal string | IntVal int | NilVal

datatype panic = TypeAssertionPanic

text \<open>
  \<open>Configure\<close>. The assertion \<open>val.(bool)\<close> is evaluated only when the key exists, and
  \<open>facts[ConfigTreeDiffBlacklistedDirs].([]string)\<close> only when the flag is \<open>true\<close>; an
  assertion of the single-result form panics on any other dynamic type, and a missing key
  reads as the \<open>nil\<close> interface.
\<close>

definition Configure :: "'t treeDiff \<Rightarrow> (string \<rightharpoonup> iface) \<Rightarrow> panic + 't treeDiff" where
  "Configure treediff facts =
     (case facts ConfigTreeDiffSkipBlacklist of
        None \<Rightarrow> Inr treediff
      | Some val \<Rightarrow>
          (case val of
             BoolVal b \<Rightarrow>
               (if b = True then
                  (case facts ConfigTreeDiffBlacklistedDirs of
                     Some (StringsVal dirs) \<Rightarrow> Inr (treediff\<lparr>SkipDirs := dirs\<rparr>)
                   | _ \<Rightarrow> Inl TypeAssertionPanic)
                else Inr treediff)
           | _ \<Rightarrow> Inl TypeAssertionPanic))"

definition Initialize :: "'t treeDiff \<Rightarrow> 't treeDiff" where
  "Initialize treediff = treediff\<lparr>previousTree := None\<rparr>"

subsection \<open>The blacklist filter (lines 125 to 139)\<close>

text \<open>\<open>strings.HasPrefix(s, prefix)\<close>.\<close>

definition HasPrefix :: "string \<Rightarrow> string \<Rightarrow> bool" where
  "HasPrefix s pre = (length pre \<le> length s \<and> take (length pre) s = pre)"

text \<open>
  The inner loop over \<open>treediff.SkipDirs\<close>: \<open>True\<close> when it leaves by \<open>continue OUTER\<close>.
\<close>

fun blacklisted :: "string list \<Rightarrow> 't change \<Rightarrow> bool" where
  "blacklisted [] change = False"
| "blacklisted (dir # dirs) change =
     (if HasPrefix (ce_Name (To change)) dir \<or> HasPrefix (ce_Name (From change)) dir
      then True
      else blacklisted dirs change)"

text \<open>
  The outer loop. \<open>filteredDiff := diff[:0]\<close> shares the backing array of \<open>diff\<close>, so the
  model keeps that one array \<open>arr\<close>: iteration \<open>i\<close> of \<open>range diff\<close> reads \<open>arr ! i\<close> as the
  array is then, and \<open>append(filteredDiff, change)\<close> stores at index \<open>j\<close>, the length of
  \<open>filteredDiff\<close> (always below the capacity, since \<open>j \<le> i < len(diff)\<close>). \<open>n\<close> is
  \<open>len(diff)\<close>, fixed when the loop starts. The result is \<open>filteredDiff\<close>, the first \<open>j\<close>
  cells.
\<close>

function filterLoop :: "string list \<Rightarrow> 't change list \<Rightarrow> nat \<Rightarrow> nat \<Rightarrow> nat \<Rightarrow> 't change list" where
  "filterLoop dirs arr n i j =
     (if i < n then
        (let change = arr ! i in
         if blacklisted dirs change then filterLoop dirs arr n (Suc i) j
         else filterLoop dirs (arr[j := change]) n (Suc i) (Suc j))
      else take j arr)"
  by pat_completeness auto
termination
  by (relation "measure (\<lambda>(dirs, arr, n, i, j). n - i)") auto

declare filterLoop.simps [simp del]

text \<open>The whole stage: \<open>if len(treediff.SkipDirs) > 0 { ... }\<close>.\<close>

definition filterStage :: "string list \<Rightarrow> 't change list \<Rightarrow> 't change list" where
  "filterStage dirs diff =
     (if length dirs > 0 then filterLoop dirs diff (length diff) 0 0 else diff)"

subsection \<open>Consume\<close>

text \<open>The change appended for one file of the first commit: only \<open>To\<close> is set.\<close>

definition insertion :: "'t \<Rightarrow> File \<Rightarrow> 't change" where
  "insertion tree f =
     \<lparr>From = zeroChangeEntry,
      To = \<lparr>ce_Name = file_Name f, ce_Tree = Some tree,
            ce_TreeEntry = \<lparr>te_Name = file_Name f, te_Mode = file_Mode f, te_Hash = file_Hash f\<rparr>\<rparr>\<rparr>"

text \<open>
  The \<open>for\<close> loop of the closure (lines 105 to 116): the returned error (\<open>None\<close> for
  \<open>nil\<close>), the captured \<open>diff\<close>, and the iterator as the loop leaves it.
\<close>

function enumLoop :: "'t \<Rightarrow> fileIter \<Rightarrow> 't change list \<Rightarrow> error option \<times> 't change list \<times> fileIter" where
  "enumLoop tree fileIter diff =
     (case Next fileIter of
        (Inl err, fileIter') \<Rightarrow>
          (if err = EOF then (None, diff, fileIter') else (Some err, diff, fileIter'))
      | (Inr f, fileIter') \<Rightarrow> enumLoop tree fileIter' (diff @ [insertion tree f]))"
  by pat_completeness auto
termination
  by (relation "measure (\<lambda>(tree, it, diff). length (yields it))")
     (auto simp: Next_def split: list.splits)

declare enumLoop.simps [simp del]

text \<open>
  The closure (lines 102 to 118): \<open>tree.Files()\<close>, the loop, and the deferred
  \<open>fileIter.Close()\<close>, which runs when the closure returns, on either \<open>return\<close>.
\<close>

definition listFiles :: "('c, 't) backend \<Rightarrow> 't \<Rightarrow> error option \<times> 't change list \<times> fileIter" where
  "listFiles b tree =
     (let fileIter = tree_Files b tree;
          (err, diff, fileIter') = enumLoop tree fileIter []
      in (err, diff, Close fileIter'))"

text \<open>A value of the \<open>deps\<close> map: the commit, or anything else.\<close>

datatype 'c dep = CommitDep 'c | OtherDep

text \<open>
  What a call of \<open>Consume\<close> does: it panics (the assertion on \<open>deps["commit"]\<close>), or it
  returns the pair of a map (\<open>None\<close> for \<open>nil\<close>) and an error (\<open>None\<close> for \<open>nil\<close>).
\<close>

datatype 't returned = Panic panic | Return "(string \<rightharpoonup> 't change list) option" "error option"

text \<open>
  The effects of a call: the item afterwards, what the call returned, and the file iterator
  the call opened (if it opened one) as it is when the call ends.
\<close>

record 't consumed =
  state :: "'t treeDiff"
  ret :: "'t returned"
  iter :: "fileIter option"

text \<open>Lines 123 to 140: store the tree, filter, return the map.\<close>

definition finish :: "'t treeDiff \<Rightarrow> 't \<Rightarrow> 't change list \<Rightarrow> fileIter option \<Rightarrow> 't consumed" where
  "finish treediff tree diff it =
     (let treediff' = treediff\<lparr>previousTree := Some tree\<rparr>;
          diff' = filterStage (SkipDirs treediff') diff
      in \<lparr>state = treediff',
          ret = Return (Some [DependencyTreeChanges \<mapsto> diff']) None,
          iter = it\<rparr>)"

definition Consume :: "('c, 't) backend \<Rightarrow> 't treeDiff \<Rightarrow> (string \<rightharpoonup> 'c dep) \<Rightarrow> 't consumed" where
  "Consume b treediff deps =
     (case deps ''commit'' of
        Some (CommitDep commit) \<Rightarrow>
          (case commit_Tree b commit of
             Inl err \<Rightarrow> \<lparr>state = treediff, ret = Return None (Some err), iter = None\<rparr>
           | Inr tree \<Rightarrow>
               (case previousTree treediff of
                  Some prev \<Rightarrow>
                    (case DiffTree b prev tree of
                       Inl err \<Rightarrow> \<lparr>state = treediff, ret = Return None (Some err), iter = None\<rparr>
                     | Inr diff \<Rightarrow> finish treediff tree diff None)
                | None \<Rightarrow>
                    (case listFiles b tree of
                       (Some err, diff, it) \<Rightarrow>
                          \<lparr>state = treediff, ret = Return None (Some err), iter = Some it\<rparr>
                     | (None, diff, it) \<Rightarrow> finish treediff tree diff (Some it))))
      | _ \<Rightarrow> \<lparr>state = treediff, ret = Panic TypeAssertionPanic, iter = None\<rparr>)"

text \<open>
  Successive calls on one item, as the pipeline makes them: each call starts from the
  item the previous call left.
\<close>

fun ConsumeSeq :: "('c, 't) backend \<Rightarrow> 't treeDiff \<Rightarrow> (string \<rightharpoonup> 'c dep) list \<Rightarrow> 't consumed list" where
  "ConsumeSeq b treediff [] = []"
| "ConsumeSeq b treediff (deps # rest) =
     (let r = Consume b treediff deps in r # ConsumeSeq b (state r) rest)"

subsection \<open>The filter as the specification words it\<close>

text \<open>
  The data model's invariant of a \<open>Change\<close>: at least one of the two entries is there.
\<close>

definition wellFormed :: "'t change \<Rightarrow> bool" where
  "wellFormed c = (present (From c) \<or> present (To c))"

text \<open>
  A change is retained when neither the path of its old entry nor the path of its new
  entry, when the entry is present, begins with a prefix of the set.
\<close>

definition spec_retained :: "string list \<Rightarrow> 't change \<Rightarrow> bool" where
  "spec_retained P c =
     (\<not> (\<exists>p \<in> set P. (present (From c) \<and> prefix p (ce_Name (From c)))
                     \<or> (present (To c) \<and> prefix p (ce_Name (To c)))))"

text \<open>
  What the next pipeline item reads from a returned pair: the changes under the key
  \<open>DependencyTreeChanges\<close> when the error is \<open>nil\<close>, nothing otherwise.
\<close>

definition changesOf :: "'t returned \<Rightarrow> 't change list option" where
  "changesOf r =
     (case r of
        Return (Some m) None \<Rightarrow> m DependencyTreeChanges
      | _ \<Rightarrow> None)"

subsection \<open>A small repository\<close>

text \<open>
  Commits and trees are numbers, commit \<open>n\<close> has tree \<open>n\<close>. Commit 0 cannot be resolved.
  Tree 10 holds \<open>vendor/lib.go\<close> and \<open>main.go\<close>; tree 20 changes \<open>main.go\<close> and adds
  \<open>vendor/new.go\<close>; the enumeration of tree 30 breaks after \<open>a.txt\<close>; no diff into tree 40
  can be computed.
\<close>

definition blob :: "string \<Rightarrow> 8 word \<Rightarrow> File" where
  "blob name h = \<lparr>file_Name = name, file_Mode = 33188, file_Hash = replicate 20 h\<rparr>"

definition entryOf :: "nat \<Rightarrow> File \<Rightarrow> nat changeEntry" where
  "entryOf tree f = To (insertion tree f)"

definition exFiles :: "nat \<Rightarrow> fileIter" where
  "exFiles tree =
     (if tree = 10 then
        \<lparr>yields = [blob ''vendor/lib.go'' 1, blob ''main.go'' 2], ending = EOF, closed = False\<rparr>
      else if tree = 30 then
        \<lparr>yields = [blob ''a.txt'' 3], ending = Failure ''object not found'', closed = False\<rparr>
      else \<lparr>yields = [], ending = EOF, closed = False\<rparr>)"

definition exDiff :: "nat \<Rightarrow> nat \<Rightarrow> error + nat change list" where
  "exDiff a b =
     (if b = 40 then Inl (Failure ''object not found'')
      else if a = 10 \<and> b = 20 then
        Inr [\<lparr>From = entryOf 10 (blob ''main.go'' 2), To = entryOf 20 (blob ''main.go'' 5)\<rparr>,
             insertion 20 (blob ''vendor/new.go'' 6)]
      else Inr [])"

definition exBackend :: "(nat, nat) backend" where
  "exBackend =
     \<lparr>commit_Tree = (\<lambda>c. if c = 0 then Inl (Failure ''object not found'') else Inr c),
      tree_Files = exFiles,
      DiffTree = exDiff\<rparr>"

definition exItem :: "string list \<Rightarrow> nat treeDiff" where
  "exItem dirs = \<lparr>previousTree = None, SkipDirs = dirs\<rparr>"

definition exDeps :: "nat \<Rightarrow> (string \<rightharpoonup> nat dep)" where
  "exDeps c = [''commit'' \<mapsto> CommitDep c]"

text \<open>
  The filter scenario of the specification: an insertion under \<open>vendor/\<close>, an insertion of
  \<open>main.go\<close>, and a deletion under \<open>vendor/\<close>.
\<close>

definition exChanges :: "nat change list" where
  "exChanges =
     [insertion 10 (blob ''vendor/lib.go'' 1),
      insertion 10 (blob ''main.go'' 2),
      \<lparr>From = entryOf 0 (blob ''vendor/old.go'' 7), To = zeroChangeEntry\<rparr>]"

section \<open>Properties\<close>

subsection \<open>The filter loop computes a filter\<close>

lemma HasPrefix_iff_prefix: "HasPrefix s p \<longleftrightarrow> prefix p s"
  unfolding HasPrefix_def prefix_def
  by (metis append_eq_conv_conj append_take_drop_id length_append le_add1)

lemma blacklisted_iff:
  "blacklisted dirs c \<longleftrightarrow>
     (\<exists>d \<in> set dirs. prefix d (ce_Name (To c)) \<or> prefix d (ce_Name (From c)))"
  by (induction dirs) (auto simp: HasPrefix_iff_prefix)

lemma filterLoop_invariant:
  "j \<le> i \<Longrightarrow> i \<le> n \<Longrightarrow> n = length arr \<Longrightarrow>
   filterLoop dirs arr n i j = take j arr @ filter (\<lambda>c. \<not> blacklisted dirs c) (drop i arr)"
proof (induction dirs arr n i j rule: filterLoop.induct)
  case (1 dirs arr n i j)
  show ?case
  proof (cases "i < n")
    case False
    then have "filterLoop dirs arr n i j = take j arr"
      by (subst filterLoop.simps) simp
    moreover have "drop i arr = []"
      using False 1(5) by simp
    ultimately show ?thesis by simp
  next
    case True
    note lt = True
    have dropi: "drop i arr = arr ! i # drop (Suc i) arr"
      using lt 1(5) by (simp add: Cons_nth_drop_Suc)
    show ?thesis
    proof (cases "blacklisted dirs (arr ! i)")
      case True
      have "filterLoop dirs arr n i j = filterLoop dirs arr n (Suc i) j"
        using lt True by (subst filterLoop.simps) simp
      also have "\<dots> = take j arr @ filter (\<lambda>c. \<not> blacklisted dirs c) (drop (Suc i) arr)"
        using 1(1) [OF lt refl True] 1(3,4,5) lt by simp
      finally show ?thesis using True dropi by simp
    next
      case False
      let ?arr = "arr[j := arr ! i]"
      have "filterLoop dirs arr n i j = filterLoop dirs ?arr n (Suc i) (Suc j)"
        using lt False by (subst filterLoop.simps) simp
      also have "\<dots> = take (Suc j) ?arr @ filter (\<lambda>c. \<not> blacklisted dirs c) (drop (Suc i) ?arr)"
        using 1(2) [OF lt refl False] 1(3,4,5) lt by simp
      also have "take (Suc j) ?arr = take j arr @ [arr ! i]"
        using 1(3,5) lt by (simp add: take_Suc_conv_app_nth)
      also have "drop (Suc i) ?arr = drop (Suc i) arr"
        using 1(3) by simp
      finally show ?thesis using False dropi by simp
    qed
  qed
qed

lemma filterLoop_filter:
  "filterLoop dirs diff (length diff) 0 0 = filter (\<lambda>c. \<not> blacklisted dirs c) diff"
  by (simp add: filterLoop_invariant)

lemma filterStage_filter:
  "filterStage dirs diff = filter (\<lambda>c. \<not> blacklisted dirs c) diff"
  by (cases dirs) (simp_all add: filterStage_def filterLoop_filter)


subsection \<open>The filter stage\<close>

lemma blacklisted_iff_not_retained:
  assumes "wellFormed c \<or> [] \<notin> set P"
  shows "blacklisted P c \<longleftrightarrow> \<not> spec_retained P c"
proof
  assume "blacklisted P c"
  then obtain d where d: "d \<in> set P"
      and pre: "prefix d (ce_Name (To c)) \<or> prefix d (ce_Name (From c))"
    by (auto simp: blacklisted_iff)
  have absent: "e = [] \<or> present x" if "prefix e (ce_Name x)" for e and x :: "'a changeEntry"
    using that by (cases "present x") (auto simp: present_def zeroChangeEntry_def)
  have some: "present (From c) \<or> present (To c)" if "d = []"
    using assms d that by (auto simp: wellFormed_def)
  from pre show "\<not> spec_retained P c"
  proof
    assume p: "prefix d (ce_Name (To c))"
    show ?thesis
    proof (cases "present (To c)")
      case True
      with d p show ?thesis by (auto simp: spec_retained_def)
    next
      case False
      with absent [OF p] have "d = []" by simp
      with d some show ?thesis
        unfolding spec_retained_def by (auto intro!: bexI [of _ "[]"])
    qed
  next
    assume p: "prefix d (ce_Name (From c))"
    show ?thesis
    proof (cases "present (From c)")
      case True
      with d p show ?thesis by (auto simp: spec_retained_def)
    next
      case False
      with absent [OF p] have "d = []" by simp
      with d some show ?thesis
        unfolding spec_retained_def by (auto intro!: bexI [of _ "[]"])
    qed
  qed
next
  assume "\<not> spec_retained P c"
  then show "blacklisted P c"
    by (auto simp: spec_retained_def blacklisted_iff)
qed

text \<open>
  C3. With a non-empty prefix set, the filter stage returns the changes of its input that
  the specification retains (neither the old path nor the new path, when the entry is
  present, begins with a prefix of the set), in their order and each once: the result is
  \<open>filter\<close> of the input and a subsequence of it. The input changes satisfy the data
  model's invariant (an entry is present on at least one side), or else the empty string
  is not among the prefixes: Go keeps an absent side as the zero entry, whose path is the
  empty string.
\<close>

theorem filterStage_retains_exactly:
  assumes "P \<noteq> []" and "(\<forall>c \<in> set changes. wellFormed c) \<or> [] \<notin> set P"
  shows "filterStage P changes = filter (spec_retained P) changes
       \<and> subseq (filterStage P changes) changes"
proof -
  have "filter (\<lambda>c. \<not> blacklisted P c) changes = filter (spec_retained P) changes"
    using assms(2) by (intro filter_cong refl) (auto simp: blacklisted_iff_not_retained)
  then show ?thesis
    by (simp add: filterStage_filter)
qed

theorem filterStage_retains_exactly_witness:
  "filterStage [''vendor/''] exChanges = [insertion 10 (blob ''main.go'' 2)]"
proof -
  have ne: "[''vendor/''] \<noteq> ([] :: string list)" by simp
  have wf: "(\<forall>c \<in> set exChanges. wellFormed c) \<or> [] \<notin> set [''vendor/'']"
    by (simp add: exChanges_def wellFormed_def present_def insertion_def entryOf_def
        zeroChangeEntry_def blob_def)
  show ?thesis
    using filterStage_retains_exactly [OF ne wf]
    by (simp add: exChanges_def spec_retained_def present_def insertion_def entryOf_def
        zeroChangeEntry_def blob_def)
qed

text \<open>
  C7. With an empty prefix set the filter stage returns its input unchanged.
\<close>

theorem filterStage_empty_identity: "filterStage [] c = c"
  by (simp add: filterStage_def)

text \<open>
  C8. The filter stage is idempotent: filtering a filtered list with the same prefix set
  changes nothing.
\<close>

theorem filterStage_idempotent: "filterStage P (filterStage P c) = filterStage P c"
  by (simp add: filterStage_filter)

subsection \<open>The cases of a call of \<open>Consume\<close>\<close>

lemma enumLoop_eq:
  "enumLoop tree it diff =
     (if ending it = EOF then None else Some (ending it),
      diff @ map (insertion tree) (yields it),
      it\<lparr>yields := []\<rparr>)"
proof (induction "yields it" arbitrary: it diff)
  case Nil
  then have "Next it = (Inl (ending it), it)" by (simp add: Next_def)
  moreover have "it\<lparr>yields := []\<rparr> = it" using Nil by simp
  ultimately show ?case using Nil [symmetric]
    by (subst enumLoop.simps) simp
next
  case (Cons f fs)
  have nx: "Next it = (Inr f, it\<lparr>yields := fs\<rparr>)"
    using Cons(2) [symmetric] by (simp add: Next_def)
  have "enumLoop tree it diff = enumLoop tree (it\<lparr>yields := fs\<rparr>) (diff @ [insertion tree f])"
    by (subst enumLoop.simps) (simp add: nx)
  also have "\<dots> = (if ending it = EOF then None else Some (ending it),
      (diff @ [insertion tree f]) @ map (insertion tree) fs, it\<lparr>yields := []\<rparr>)"
    using Cons(1) [of "it\<lparr>yields := fs\<rparr>" "diff @ [insertion tree f]"] by simp
  finally show ?case using Cons(2) [symmetric] by simp
qed

lemma listFiles_eq:
  "listFiles b tree =
     (if ending (tree_Files b tree) = EOF then None else Some (ending (tree_Files b tree)),
      map (insertion tree) (yields (tree_Files b tree)),
      (tree_Files b tree)\<lparr>yields := [], closed := True\<rparr>)"
  by (simp add: listFiles_def enumLoop_eq Close_def Let_def)

lemma Consume_panics:
  assumes "\<And>c. deps ''commit'' \<noteq> Some (CommitDep c)"
  shows "Consume b td deps = \<lparr>state = td, ret = Panic TypeAssertionPanic, iter = None\<rparr>"
  using assms by (auto simp: Consume_def split: option.splits dep.splits)

lemma Consume_resolution_fails:
  assumes "deps ''commit'' = Some (CommitDep c)" and "commit_Tree b c = Inl e"
  shows "Consume b td deps = \<lparr>state = td, ret = Return None (Some e), iter = None\<rparr>"
  using assms by (simp add: Consume_def)

lemma Consume_diff_fails:
  assumes "deps ''commit'' = Some (CommitDep c)" and "commit_Tree b c = Inr tree"
    and "previousTree td = Some prev" and "DiffTree b prev tree = Inl e"
  shows "Consume b td deps = \<lparr>state = td, ret = Return None (Some e), iter = None\<rparr>"
  using assms by (simp add: Consume_def)

lemma Consume_diff_succeeds:
  assumes "deps ''commit'' = Some (CommitDep c)" and "commit_Tree b c = Inr tree"
    and "previousTree td = Some prev" and "DiffTree b prev tree = Inr diff"
  shows "Consume b td deps =
           \<lparr>state = td\<lparr>previousTree := Some tree\<rparr>,
            ret = Return (Some [DependencyTreeChanges \<mapsto> filterStage (SkipDirs td) diff]) None,
            iter = None\<rparr>"
  using assms by (simp add: Consume_def finish_def)

lemma Consume_enumeration_fails:
  assumes "deps ''commit'' = Some (CommitDep c)" and "commit_Tree b c = Inr tree"
    and "previousTree td = None" and "ending (tree_Files b tree) \<noteq> EOF"
  shows "Consume b td deps =
           \<lparr>state = td, ret = Return None (Some (ending (tree_Files b tree))),
            iter = Some ((tree_Files b tree)\<lparr>yields := [], closed := True\<rparr>)\<rparr>"
  using assms by (simp add: Consume_def listFiles_eq)

lemma Consume_enumeration_succeeds:
  assumes "deps ''commit'' = Some (CommitDep c)" and "commit_Tree b c = Inr tree"
    and "previousTree td = None" and "ending (tree_Files b tree) = EOF"
  shows "Consume b td deps =
           \<lparr>state = td\<lparr>previousTree := Some tree\<rparr>,
            ret = Return (Some [DependencyTreeChanges \<mapsto>
                    filterStage (SkipDirs td) (map (insertion tree) (yields (tree_Files b tree)))]) None,
            iter = Some ((tree_Files b tree)\<lparr>yields := [], closed := True\<rparr>)\<rparr>"
  using assms by (simp add: Consume_def listFiles_eq finish_def)

text \<open>Every call falls under one of the six cases.\<close>

lemma Consume_cases:
  obtains
    (panic) "\<And>c. deps ''commit'' \<noteq> Some (CommitDep c)"
  | (resolution) c e where "deps ''commit'' = Some (CommitDep c)" "commit_Tree b c = Inl e"
  | (diff_fails) c tree prev e where "deps ''commit'' = Some (CommitDep c)"
      "commit_Tree b c = Inr tree" "previousTree td = Some prev" "DiffTree b prev tree = Inl e"
  | (diff_ok) c tree prev diff where "deps ''commit'' = Some (CommitDep c)"
      "commit_Tree b c = Inr tree" "previousTree td = Some prev" "DiffTree b prev tree = Inr diff"
  | (enum_fails) c tree where "deps ''commit'' = Some (CommitDep c)"
      "commit_Tree b c = Inr tree" "previousTree td = None" "ending (tree_Files b tree) \<noteq> EOF"
  | (enum_ok) c tree where "deps ''commit'' = Some (CommitDep c)"
      "commit_Tree b c = Inr tree" "previousTree td = None" "ending (tree_Files b tree) = EOF"
proof (cases "deps ''commit''")
  case None
  then show ?thesis using panic by simp
next
  case (Some d)
  show ?thesis
  proof (cases d)
    case OtherDep
    with Some show ?thesis using panic by simp
  next
    case (CommitDep c)
    note dc = Some [unfolded CommitDep]
    show ?thesis
    proof (cases "commit_Tree b c")
      case (Inl e)
      with dc show ?thesis using resolution by blast
    next
      case (Inr tree)
      show ?thesis
      proof (cases "previousTree td")
        case None
        with dc Inr show ?thesis using enum_fails enum_ok by blast
      next
        case (Some prev)
        with dc Inr show ?thesis using diff_fails diff_ok by (cases "DiffTree b prev tree") blast+
      qed
    qed
  qed
qed

subsection \<open>Failures and the stored tree\<close>

text \<open>
  C4. Whenever \<open>Consume\<close> returns an error, the returned map is \<open>nil\<close> and the item is as
  it was before the call (\<open>previousTree\<close> included); the item changes only in a call that
  returns a map and no error. The three failures all end this way: the commit's tree
  cannot be resolved, \<open>DiffTree\<close> fails, or the enumeration of the first tree ends with an
  error other than \<open>io.EOF\<close>.
\<close>

theorem Consume_failure_keeps_state:
  "(\<forall>out err. ret (Consume b td deps) = Return out (Some err)
       \<longrightarrow> out = None \<and> state (Consume b td deps) = td)
 \<and> (state (Consume b td deps) \<noteq> td
       \<longrightarrow> (\<exists>m. ret (Consume b td deps) = Return (Some m) None))
 \<and> (\<forall>c e. deps ''commit'' = Some (CommitDep c) \<and> commit_Tree b c = Inl e
       \<longrightarrow> Consume b td deps = \<lparr>state = td, ret = Return None (Some e), iter = None\<rparr>)
 \<and> (\<forall>c tree prev e. deps ''commit'' = Some (CommitDep c) \<and> commit_Tree b c = Inr tree
         \<and> previousTree td = Some prev \<and> DiffTree b prev tree = Inl e
       \<longrightarrow> Consume b td deps = \<lparr>state = td, ret = Return None (Some e), iter = None\<rparr>)
 \<and> (\<forall>c tree. deps ''commit'' = Some (CommitDep c) \<and> commit_Tree b c = Inr tree
         \<and> previousTree td = None \<and> ending (tree_Files b tree) \<noteq> EOF
       \<longrightarrow> state (Consume b td deps) = td
         \<and> ret (Consume b td deps) = Return None (Some (ending (tree_Files b tree))))"
proof -
  note cases = Consume_panics Consume_resolution_fails Consume_diff_fails
    Consume_diff_succeeds Consume_enumeration_fails Consume_enumeration_succeeds
  have 1: "out = None \<and> state (Consume b td deps) = td"
    if "ret (Consume b td deps) = Return out (Some err)" for out err
    using that
    by - (rule Consume_cases [where deps = deps and b = b and td = td], simp_all add: cases)
  have 2: "\<exists>m. ret (Consume b td deps) = Return (Some m) None"
    if "state (Consume b td deps) \<noteq> td"
    using that
    by - (rule Consume_cases [where deps = deps and b = b and td = td], simp_all add: cases)
  show ?thesis
    using 1 2 by (simp add: cases)
qed

theorem Consume_failure_keeps_state_witness:
  "state (Consume exBackend (exItem [''vendor/'']) (exDeps 30)) = exItem [''vendor/'']
 \<and> ret (Consume exBackend (exItem [''vendor/'']) (exDeps 30))
      = Return None (Some (Failure ''object not found''))"
proof -
  have "exDeps 30 ''commit'' = Some (CommitDep 30) \<and> commit_Tree exBackend 30 = Inr 30
      \<and> previousTree (exItem [''vendor/'']) = None \<and> ending (tree_Files exBackend 30) \<noteq> EOF"
    by (simp add: exDeps_def exBackend_def exItem_def exFiles_def)
  with Consume_failure_keeps_state [of exBackend "exItem [''vendor/'']" "exDeps 30"]
  have "state (Consume exBackend (exItem [''vendor/'']) (exDeps 30)) = exItem [''vendor/'']
      \<and> ret (Consume exBackend (exItem [''vendor/'']) (exDeps 30))
          = Return None (Some (ending (tree_Files exBackend 30)))"
    by blast
  then show ?thesis
    by (simp add: exBackend_def exFiles_def)
qed

subsection \<open>The file iterator is closed\<close>

text \<open>
  C9. An iterator opened by \<open>Consume\<close> is closed when the call ends, however the call
  ends; on the first call (no previous tree, the commit's tree resolved) the iterator
  opened is the one of the commit's tree, and it is closed whether the enumeration ends
  with \<open>io.EOF\<close> or with another error.
\<close>

theorem enumeration_always_closed:
  "(\<forall>it. iter (Consume b td deps) = Some it \<longrightarrow> closed it)
 \<and> (\<forall>c tree. deps ''commit'' = Some (CommitDep c) \<and> commit_Tree b c = Inr tree
         \<and> previousTree td = None
       \<longrightarrow> iter (Consume b td deps) = Some ((tree_Files b tree)\<lparr>yields := [], closed := True\<rparr>))"
proof -
  note cases = Consume_panics Consume_resolution_fails Consume_diff_fails
    Consume_diff_succeeds Consume_enumeration_fails Consume_enumeration_succeeds
  have 1: "closed it" if "iter (Consume b td deps) = Some it" for it
    using that
    by - (rule Consume_cases [where deps = deps and b = b and td = td], auto simp add: cases)
  have 2: "iter (Consume b td deps) = Some ((tree_Files b tree)\<lparr>yields := [], closed := True\<rparr>)"
    if "deps ''commit'' = Some (CommitDep c)" "commit_Tree b c = Inr tree" "previousTree td = None"
    for c tree
    using that by (cases "ending (tree_Files b tree) = EOF") (simp_all add: cases)
  show ?thesis
    using 1 2 by blast
qed

theorem enumeration_always_closed_witness:
  "iter (Consume exBackend (exItem []) (exDeps 30))
     = Some \<lparr>yields = [], ending = Failure ''object not found'', closed = True\<rparr>
 \<and> iter (Consume exBackend (exItem []) (exDeps 10))
     = Some \<lparr>yields = [], ending = EOF, closed = True\<rparr>"
proof -
  have "exDeps 30 ''commit'' = Some (CommitDep 30) \<and> commit_Tree exBackend 30 = Inr 30
      \<and> previousTree (exItem []) = None"
    by (simp add: exDeps_def exBackend_def exItem_def)
  with enumeration_always_closed [of exBackend "exItem []" "exDeps 30"]
  have 3: "iter (Consume exBackend (exItem []) (exDeps 30))
      = Some ((tree_Files exBackend 30)\<lparr>yields := [], closed := True\<rparr>)"
    by blast
  have "exDeps 10 ''commit'' = Some (CommitDep 10) \<and> commit_Tree exBackend 10 = Inr 10
      \<and> previousTree (exItem []) = None"
    by (simp add: exDeps_def exBackend_def exItem_def)
  with enumeration_always_closed [of exBackend "exItem []" "exDeps 10"]
  have 1: "iter (Consume exBackend (exItem []) (exDeps 10))
      = Some ((tree_Files exBackend 10)\<lparr>yields := [], closed := True\<rparr>)"
    by blast
  show ?thesis
    unfolding 1 3 by (simp add: exBackend_def exFiles_def)
qed

subsection \<open>What a call returns\<close>

lemma changesOf_Return [simp]:
  "changesOf (Return (Some [DependencyTreeChanges \<mapsto> diff]) None) = Some diff"
  "changesOf (Return None e) = None"
  "changesOf (Return m (Some err)) = None"
  "changesOf (Panic p) = None"
  by (simp_all add: changesOf_def split: option.splits)

lemmas Consume_case_eqs = Consume_panics Consume_resolution_fails Consume_diff_fails
    Consume_diff_succeeds Consume_enumeration_fails Consume_enumeration_succeeds

lemma insertion_entries:
  "\<not> present (From (insertion tree f))"
  "To (insertion tree f) =
     \<lparr>ce_Name = file_Name f, ce_Tree = Some tree,
      ce_TreeEntry = \<lparr>te_Name = file_Name f, te_Mode = file_Mode f, te_Hash = file_Hash f\<rparr>\<rparr>"
  by (simp_all add: insertion_def present_def)

lemma filterStage_Nil: "filterStage [] c = c"
  by (simp add: filterStage_def)

lemma ex_first_call:
  "Consume exBackend (exItem dirs) (exDeps 10) =
     \<lparr>state = \<lparr>previousTree = Some 10, SkipDirs = dirs\<rparr>,
      ret = Return (Some [DependencyTreeChanges \<mapsto>
              filterStage dirs [insertion 10 (blob ''vendor/lib.go'' 1),
                                insertion 10 (blob ''main.go'' 2)]]) None,
      iter = Some \<lparr>yields = [], ending = EOF, closed = True\<rparr>\<rparr>"
proof -
  have d: "exDeps 10 ''commit'' = Some (CommitDep 10)" and t: "commit_Tree exBackend 10 = Inr 10"
    by (simp_all add: exDeps_def exBackend_def)
  have p: "previousTree (exItem dirs) = None" and e: "ending (tree_Files exBackend 10) = EOF"
    by (simp_all add: exItem_def exBackend_def exFiles_def)
  show ?thesis
    unfolding Consume_enumeration_succeeds [where deps = "exDeps 10", OF d t p e]
    by (simp add: exItem_def exBackend_def exFiles_def)
qed

lemma ex_second_call:
  "Consume exBackend \<lparr>previousTree = Some 10, SkipDirs = dirs\<rparr> (exDeps 20) =
     \<lparr>state = \<lparr>previousTree = Some 20, SkipDirs = dirs\<rparr>,
      ret = Return (Some [DependencyTreeChanges \<mapsto>
              filterStage dirs
                [\<lparr>From = entryOf 10 (blob ''main.go'' 2), To = entryOf 20 (blob ''main.go'' 5)\<rparr>,
                 insertion 20 (blob ''vendor/new.go'' 6)]]) None,
      iter = None\<rparr>"
proof -
  have d: "exDeps 20 ''commit'' = Some (CommitDep 20)" and t: "commit_Tree exBackend 20 = Inr 20"
    by (simp_all add: exDeps_def exBackend_def)
  have p: "previousTree \<lparr>previousTree = Some (10::nat), SkipDirs = dirs\<rparr> = Some 10"
    by simp
  have e: "DiffTree exBackend 10 20 =
      Inr [\<lparr>From = entryOf 10 (blob ''main.go'' 2), To = entryOf 20 (blob ''main.go'' 5)\<rparr>,
           insertion 20 (blob ''vendor/new.go'' 6)]"
    by (simp add: exBackend_def exDiff_def)
  show ?thesis
    unfolding Consume_diff_succeeds [where deps = "exDeps 20", OF d t p e]
    by simp
qed

lemma ex_filtered_diff:
  "filterStage [''vendor/'']
     [\<lparr>From = entryOf 10 (blob ''main.go'' 2), To = entryOf 20 (blob ''main.go'' 5)\<rparr>,
      insertion 20 (blob ''vendor/new.go'' 6)]
   = [\<lparr>From = entryOf 10 (blob ''main.go'' 2), To = entryOf 20 (blob ''main.go'' 5)\<rparr>]"
  by (simp add: filterStage_filter HasPrefix_def insertion_def entryOf_def blob_def
      zeroChangeEntry_def)

lemma Consume_two_items:
  assumes "previousTree td1 = previousTree td2"
  shows "previousTree (state (Consume b td1 deps)) = previousTree (state (Consume b td2 deps))"
    and "SkipDirs (state (Consume b td1 deps)) = SkipDirs td1"
    and "SkipDirs td2 = [] \<Longrightarrow>
           changesOf (ret (Consume b td1 deps))
             = map_option (filterStage (SkipDirs td1)) (changesOf (ret (Consume b td2 deps)))"
proof -
  have "previousTree (state (Consume b td1 deps)) = previousTree (state (Consume b td2 deps))
      \<and> SkipDirs (state (Consume b td1 deps)) = SkipDirs td1
      \<and> (SkipDirs td2 = [] \<longrightarrow>
           changesOf (ret (Consume b td1 deps))
             = map_option (filterStage (SkipDirs td1)) (changesOf (ret (Consume b td2 deps))))"
  proof (rule Consume_cases [where deps = deps and b = b and td = td1])
    assume "\<And>c. deps ''commit'' \<noteq> Some (CommitDep c)"
    then show ?thesis by (simp add: Consume_panics assms)
  next
    fix c e assume "deps ''commit'' = Some (CommitDep c)" "commit_Tree b c = Inl e"
    then show ?thesis by (simp add: Consume_resolution_fails assms)
  next
    fix c tree prev e
    assume a: "deps ''commit'' = Some (CommitDep c)" "commit_Tree b c = Inr tree"
      "previousTree td1 = Some prev" "DiffTree b prev tree = Inl e"
    then have "previousTree td2 = Some prev" using assms by simp
    with a show ?thesis
      by (simp add: Consume_diff_fails [where deps = deps and prev = prev])
  next
    fix c tree prev diff
    assume a: "deps ''commit'' = Some (CommitDep c)" "commit_Tree b c = Inr tree"
      "previousTree td1 = Some prev" "DiffTree b prev tree = Inr diff"
    then have "previousTree td2 = Some prev" using assms by simp
    with a show ?thesis
      by (simp add: Consume_diff_succeeds [where deps = deps and prev = prev] filterStage_def)
  next
    fix c tree
    assume a: "deps ''commit'' = Some (CommitDep c)" "commit_Tree b c = Inr tree"
      "previousTree td1 = None" "ending (tree_Files b tree) \<noteq> EOF"
    then have "previousTree td2 = None" using assms by simp
    with a show ?thesis
      by (simp add: Consume_enumeration_fails [where deps = deps])
  next
    fix c tree
    assume a: "deps ''commit'' = Some (CommitDep c)" "commit_Tree b c = Inr tree"
      "previousTree td1 = None" "ending (tree_Files b tree) = EOF"
    then have "previousTree td2 = None" using assms by simp
    with a show ?thesis
      by (simp add: Consume_enumeration_succeeds [where deps = deps] filterStage_def)
  qed
  then show "previousTree (state (Consume b td1 deps)) = previousTree (state (Consume b td2 deps))"
    and "SkipDirs (state (Consume b td1 deps)) = SkipDirs td1"
    and "SkipDirs td2 = [] \<Longrightarrow>
           changesOf (ret (Consume b td1 deps))
             = map_option (filterStage (SkipDirs td1)) (changesOf (ret (Consume b td2 deps)))"
    by simp_all
qed

lemma ConsumeSeq_two_items:
  "previousTree td1 = previousTree td2 \<Longrightarrow>
   map (\<lambda>r. previousTree (state r)) (ConsumeSeq b td1 calls)
     = map (\<lambda>r. previousTree (state r)) (ConsumeSeq b td2 calls)
   \<and> (SkipDirs td2 = [] \<longrightarrow>
        map (\<lambda>r. changesOf (ret r)) (ConsumeSeq b td1 calls)
          = map (\<lambda>r. map_option (filterStage (SkipDirs td1)) (changesOf (ret r)))
              (ConsumeSeq b td2 calls))"
proof (induction calls arbitrary: td1 td2)
  case Nil
  show ?case by simp
next
  case (Cons deps calls)
  let ?s1 = "state (Consume b td1 deps)" and ?s2 = "state (Consume b td2 deps)"
  have p: "previousTree ?s1 = previousTree ?s2"
    using Cons.prems by (rule Consume_two_items(1))
  have s1: "SkipDirs ?s1 = SkipDirs td1" and s2: "SkipDirs ?s2 = SkipDirs td2"
    using Consume_two_items(2) [of td1 td1 b deps] Consume_two_items(2) [of td2 td2 b deps]
    by simp_all
  have c: "changesOf (ret (Consume b td1 deps))
            = map_option (filterStage (SkipDirs td1)) (changesOf (ret (Consume b td2 deps)))"
    if "SkipDirs td2 = []"
    using Cons.prems that by (rule Consume_two_items(3))
  from Cons.IH [OF p] p s1 s2 c show ?case
    by (simp add: Let_def)
qed

subsection \<open>The first commit\<close>

text \<open>
  C1 (as amended). On the first call after \<open>Initialize\<close> (no previous tree), a call of
  \<open>Consume\<close> that returns without error returns the filter stage's result on the list
  that holds one change per file of the commit's tree, in the order of the tree's
  enumeration. When the prefix set of the item is empty, the returned changes are that
  list itself. Each change of the list has no old entry, and its new entry carries the
  file's path, mode and hash; so the paths of the list are the paths the enumeration of
  the tree yields, one for one.
\<close>

theorem first_commit_lists_every_file:
  assumes "deps ''commit'' = Some (CommitDep c)" and "commit_Tree b c = Inr tree"
    and "ret (Consume b (Initialize td) deps) = Return out None"
  shows "out = Some [DependencyTreeChanges \<mapsto>
                  filterStage (SkipDirs td) (map (insertion tree) (yields (tree_Files b tree)))]
       \<and> (SkipDirs td = [] \<longrightarrow>
            out = Some [DependencyTreeChanges \<mapsto> map (insertion tree) (yields (tree_Files b tree))])
       \<and> map (\<lambda>ch. ce_Name (To ch)) (map (insertion tree) (yields (tree_Files b tree)))
            = map file_Name (yields (tree_Files b tree))
       \<and> (\<forall>f. \<not> present (From (insertion tree f))
              \<and> To (insertion tree f) =
                  \<lparr>ce_Name = file_Name f, ce_Tree = Some tree,
                   ce_TreeEntry = \<lparr>te_Name = file_Name f, te_Mode = file_Mode f,
                                   te_Hash = file_Hash f\<rparr>\<rparr>)"
proof -
  have prev: "previousTree (Initialize td) = None" and skip: "SkipDirs (Initialize td) = SkipDirs td"
    by (simp_all add: Initialize_def)
  have eof: "ending (tree_Files b tree) = EOF"
  proof (rule ccontr)
    assume "ending (tree_Files b tree) \<noteq> EOF"
    from Consume_enumeration_fails [where deps = deps, OF assms(1,2) prev this] assms(3) show False by simp
  qed
  have out: "out = Some [DependencyTreeChanges \<mapsto>
                  filterStage (SkipDirs td) (map (insertion tree) (yields (tree_Files b tree)))]"
    using Consume_enumeration_succeeds [where deps = deps, OF assms(1,2) prev eof] assms(3) by (simp add: skip)
  show ?thesis
    using out by (simp add: insertion_entries filterStage_def o_def)
qed

theorem first_commit_lists_every_file_witness:
  "ret (Consume exBackend (Initialize (exItem [])) (exDeps 10))
     = Return (Some [DependencyTreeChanges \<mapsto>
         [insertion 10 (blob ''vendor/lib.go'' 1), insertion 10 (blob ''main.go'' 2)]]) None"
proof -
  have d: "exDeps 10 ''commit'' = Some (CommitDep 10)" and t: "commit_Tree exBackend 10 = Inr 10"
    by (simp_all add: exDeps_def exBackend_def)
  have p: "previousTree (Initialize (exItem [])) = None"
      and e: "ending (tree_Files exBackend 10) = EOF"
    by (simp_all add: Initialize_def exBackend_def exFiles_def)
  obtain out where r: "ret (Consume exBackend (Initialize (exItem [])) (exDeps 10)) = Return out None"
    using Consume_enumeration_succeeds [where deps = "exDeps 10", OF d t p e] by simp
  have "SkipDirs (exItem []) = []" by (simp add: exItem_def)
  with first_commit_lists_every_file [where deps = "exDeps 10", OF d t r]
  have "out = Some [DependencyTreeChanges \<mapsto> map (insertion 10) (yields (tree_Files exBackend 10))]"
    by blast
  with r show ?thesis
    by (simp add: exBackend_def exFiles_def)
qed

text \<open>
  C1 as stated fails when the blacklist is switched on: tree 10 holds \<open>vendor/lib.go\<close> and
  \<open>main.go\<close>, and with the prefix \<open>vendor/\<close> the first call returns the insertion of
  \<open>main.go\<close> only.
\<close>

theorem first_commit_filtered_counterexample:
  "previousTree (Initialize (exItem [''vendor/''])) = None
 \<and> exDeps 10 ''commit'' = Some (CommitDep 10)
 \<and> commit_Tree exBackend 10 = Inr 10
 \<and> map file_Name (yields (tree_Files exBackend 10)) = [''vendor/lib.go'', ''main.go'']
 \<and> changesOf (ret (Consume exBackend (Initialize (exItem [''vendor/''])) (exDeps 10)))
      = Some [insertion 10 (blob ''main.go'' 2)]
 \<and> changesOf (ret (Consume exBackend (Initialize (exItem [''vendor/''])) (exDeps 10)))
      \<noteq> Some (map (insertion 10) (yields (tree_Files exBackend 10)))"
proof -
  have d: "exDeps 10 ''commit'' = Some (CommitDep 10)" and t: "commit_Tree exBackend 10 = Inr 10"
    by (simp_all add: exDeps_def exBackend_def)
  have p: "previousTree (Initialize (exItem [''vendor/''])) = None"
      and e: "ending (tree_Files exBackend 10) = EOF"
    by (simp_all add: Initialize_def exBackend_def exFiles_def)
  have f: "filterStage [''vendor/'']
             [insertion (10::nat) (blob ''vendor/lib.go'' 1), insertion 10 (blob ''main.go'' 2)]
           = [insertion 10 (blob ''main.go'' 2)]"
    by (simp add: filterStage_filter HasPrefix_def insertion_def blob_def zeroChangeEntry_def)
  have y: "yields (tree_Files exBackend 10) = [blob ''vendor/lib.go'' 1, blob ''main.go'' 2]"
    by (simp add: exBackend_def exFiles_def)
  have s: "SkipDirs (Initialize (exItem [''vendor/''])) = [''vendor/'']"
    by (simp add: Initialize_def exItem_def)
  have "changesOf (ret (Consume exBackend (Initialize (exItem [''vendor/''])) (exDeps 10)))
      = Some [insertion 10 (blob ''main.go'' 2)]"
    by (simp add: Consume_enumeration_succeeds [where deps = "exDeps 10", OF d t p e] y s f
       )
  then show ?thesis
    using d t p y by (simp add: blob_def)
qed

subsection \<open>The second of two calls\<close>

text \<open>
  C2 (as amended). When two consecutive calls of \<open>Consume\<close> return without error, on
  commits with the trees \<open>T1\<close> and \<open>T2\<close>, the second call returns the filter stage's result
  on \<open>DiffTree(T1, T2)\<close>, whatever the first call started from; when the prefix set of the
  item is empty, it returns \<open>DiffTree(T1, T2)\<close> itself.
\<close>

theorem second_call_is_pairwise_diff:
  assumes "deps1 ''commit'' = Some (CommitDep c1)" and "commit_Tree b c1 = Inr T1"
    and "ret (Consume b td deps1) = Return out1 None"
    and "deps2 ''commit'' = Some (CommitDep c2)" and "commit_Tree b c2 = Inr T2"
    and "ret (Consume b (state (Consume b td deps1)) deps2) = Return out2 None"
  shows "\<exists>diff. DiffTree b T1 T2 = Inr diff
           \<and> out2 = Some [DependencyTreeChanges \<mapsto> filterStage (SkipDirs td) diff]
           \<and> (SkipDirs td = [] \<longrightarrow> out2 = Some [DependencyTreeChanges \<mapsto> diff])"
proof -
  let ?td' = "state (Consume b td deps1)"
  have st: "previousTree ?td' = Some T1 \<and> SkipDirs ?td' = SkipDirs td"
    using assms(1,2,3)
    by - (rule Consume_cases [where deps = deps1 and b = b and td = td],
          simp_all add: Consume_case_eqs)
  show ?thesis
  proof (cases "DiffTree b T1 T2")
    case (Inl e)
    from Consume_diff_fails [where deps = deps2, OF assms(4,5) conjunct1 [OF st] Inl] assms(6) show ?thesis by simp
  next
    case (Inr diff)
    from Consume_diff_succeeds [where deps = deps2, OF assms(4,5) conjunct1 [OF st] Inr] assms(6)
    have "out2 = Some [DependencyTreeChanges \<mapsto> filterStage (SkipDirs td) diff]"
      using st by simp
    with Inr show ?thesis by (simp add: filterStage_def)
  qed
qed

theorem second_call_is_pairwise_diff_witness:
  "ret (Consume exBackend (state (Consume exBackend (exItem []) (exDeps 10))) (exDeps 20))
     = Return (Some [DependencyTreeChanges \<mapsto>
         [\<lparr>From = entryOf 10 (blob ''main.go'' 2), To = entryOf 20 (blob ''main.go'' 5)\<rparr>,
          insertion 20 (blob ''vendor/new.go'' 6)]]) None"
proof -
  have d1: "exDeps 10 ''commit'' = Some (CommitDep 10)" and t1: "commit_Tree exBackend 10 = Inr 10"
    and d2: "exDeps 20 ''commit'' = Some (CommitDep 20)" and t2: "commit_Tree exBackend 20 = Inr 20"
    by (simp_all add: exDeps_def exBackend_def)
  obtain out1 where r1: "ret (Consume exBackend (exItem []) (exDeps 10)) = Return out1 None"
    by (simp add: ex_first_call)
  obtain out2 where r2:
    "ret (Consume exBackend (state (Consume exBackend (exItem []) (exDeps 10))) (exDeps 20))
       = Return out2 None"
    by (simp add: ex_first_call ex_second_call)
  have s: "SkipDirs (exItem []) = []" by (simp add: exItem_def)
  from second_call_is_pairwise_diff
         [where ?deps1.0 = "exDeps 10" and ?deps2.0 = "exDeps 20", OF d1 t1 r1 d2 t2 r2] s
  obtain diff where "DiffTree exBackend 10 20 = Inr diff"
      and "out2 = Some [DependencyTreeChanges \<mapsto> diff]"
    by blast
  with r2 show ?thesis
    by (simp add: exBackend_def exDiff_def)
qed

text \<open>
  C2 as stated fails when the blacklist is switched on: the diff of the trees 10 and 20
  holds the change of \<open>main.go\<close> and the insertion of \<open>vendor/new.go\<close>, and with the prefix
  \<open>vendor/\<close> the second call returns the change of \<open>main.go\<close> only.
\<close>

theorem second_call_filtered_counterexample:
  "DiffTree exBackend 10 20
     = Inr [\<lparr>From = entryOf 10 (blob ''main.go'' 2), To = entryOf 20 (blob ''main.go'' 5)\<rparr>,
            insertion 20 (blob ''vendor/new.go'' 6)]
 \<and> changesOf (ret (Consume exBackend (exItem [''vendor/'']) (exDeps 10)))
      = Some [insertion 10 (blob ''main.go'' 2)]
 \<and> changesOf (ret (Consume exBackend
        (state (Consume exBackend (exItem [''vendor/'']) (exDeps 10))) (exDeps 20)))
      = Some [\<lparr>From = entryOf 10 (blob ''main.go'' 2), To = entryOf 20 (blob ''main.go'' 5)\<rparr>]
 \<and> Inr (the (changesOf (ret (Consume exBackend
        (state (Consume exBackend (exItem [''vendor/'']) (exDeps 10))) (exDeps 20)))))
      \<noteq> DiffTree exBackend 10 20"
proof -
  have f: "filterStage [''vendor/'']
             [insertion (10::nat) (blob ''vendor/lib.go'' 1), insertion 10 (blob ''main.go'' 2)]
           = [insertion 10 (blob ''main.go'' 2)]"
    by (simp add: filterStage_filter HasPrefix_def insertion_def blob_def zeroChangeEntry_def)
  have e: "DiffTree exBackend 10 20 =
      Inr [\<lparr>From = entryOf 10 (blob ''main.go'' 2), To = entryOf 20 (blob ''main.go'' 5)\<rparr>,
           insertion 20 (blob ''vendor/new.go'' 6)]"
    by (simp add: exBackend_def exDiff_def)
  show ?thesis
    unfolding e by (simp add: ex_first_call ex_second_call ex_filtered_diff f)
qed

subsection \<open>The stored tree does not depend on the blacklist\<close>

text \<open>
  C6. A call of \<open>Consume\<close> that returns without error stores the commit's whole tree as
  \<open>previousTree\<close>, whatever the prefix set. So over any sequence of calls, two items that
  start with the same previous tree hold the same previous tree after every call,
  whatever their prefix sets; and against an item with the empty prefix set, every call
  returns the filter stage's result on what the unfiltered item returns.
\<close>

theorem baseline_unaffected_by_filter:
  "(\<forall>c tree out. deps ''commit'' = Some (CommitDep c) \<and> commit_Tree b c = Inr tree
        \<and> ret (Consume b td deps) = Return out None
      \<longrightarrow> previousTree (state (Consume b td deps)) = Some tree)
 \<and> (previousTree td1 = previousTree td2
      \<longrightarrow> map (\<lambda>r. previousTree (state r)) (ConsumeSeq b td1 calls)
            = map (\<lambda>r. previousTree (state r)) (ConsumeSeq b td2 calls))
 \<and> (previousTree td1 = previousTree td2 \<and> SkipDirs td2 = []
      \<longrightarrow> map (\<lambda>r. changesOf (ret r)) (ConsumeSeq b td1 calls)
            = map (\<lambda>r. map_option (filterStage (SkipDirs td1)) (changesOf (ret r)))
                (ConsumeSeq b td2 calls))"
proof -
  have 1: "previousTree (state (Consume b td deps)) = Some tree"
    if "deps ''commit'' = Some (CommitDep c)" "commit_Tree b c = Inr tree"
       "ret (Consume b td deps) = Return out None" for c tree out
    using that
    by - (rule Consume_cases [where deps = deps and b = b and td = td],
          simp_all add: Consume_case_eqs)
  show ?thesis
    using 1 ConsumeSeq_two_items [of td1 td2 b calls] by blast
qed

theorem baseline_unaffected_by_filter_witness:
  "map (\<lambda>r. previousTree (state r))
     (ConsumeSeq exBackend (exItem [''vendor/'']) [exDeps 10, exDeps 20])
   = [Some 10, Some 20]
 \<and> map (\<lambda>r. changesOf (ret r))
     (ConsumeSeq exBackend (exItem [''vendor/'']) [exDeps 10, exDeps 20])
   = [Some [insertion 10 (blob ''main.go'' 2)],
      Some [\<lparr>From = entryOf 10 (blob ''main.go'' 2), To = entryOf 20 (blob ''main.go'' 5)\<rparr>]]"
proof -
  have p: "previousTree (exItem [''vendor/'']) = previousTree (exItem [])"
    and s: "SkipDirs (exItem []) = []" and s': "SkipDirs (exItem [''vendor/'']) = [''vendor/'']"
    by (simp_all add: exItem_def)
  have f: "filterStage [''vendor/'']
             [insertion (10::nat) (blob ''vendor/lib.go'' 1), insertion 10 (blob ''main.go'' 2)]
           = [insertion 10 (blob ''main.go'' 2)]"
    by (simp add: filterStage_filter HasPrefix_def insertion_def blob_def zeroChangeEntry_def)
  have plain: "ConsumeSeq exBackend (exItem []) [exDeps 10, exDeps 20] =
      [Consume exBackend (exItem []) (exDeps 10),
       Consume exBackend \<lparr>previousTree = Some 10, SkipDirs = []\<rparr> (exDeps 20)]"
    by (simp add: Let_def ex_first_call)
  from baseline_unaffected_by_filter
         [of "exDeps 10" exBackend "exItem []" "exItem [''vendor/'']" "exItem []"
             "[exDeps 10, exDeps 20]"] p s
  have "map (\<lambda>r. previousTree (state r))
          (ConsumeSeq exBackend (exItem [''vendor/'']) [exDeps 10, exDeps 20])
        = map (\<lambda>r. previousTree (state r)) (ConsumeSeq exBackend (exItem []) [exDeps 10, exDeps 20])"
    and "map (\<lambda>r. changesOf (ret r))
          (ConsumeSeq exBackend (exItem [''vendor/'']) [exDeps 10, exDeps 20])
        = map (\<lambda>r. map_option (filterStage (SkipDirs (exItem [''vendor/'']))) (changesOf (ret r)))
            (ConsumeSeq exBackend (exItem []) [exDeps 10, exDeps 20])"
    by blast+
  then show ?thesis
    unfolding plain s'
    by (simp add: ex_first_call ex_second_call ex_filtered_diff f filterStage_Nil)
qed

subsection \<open>Configure\<close>

text \<open>
  C5. \<open>Configure\<close> with the skip flag \<open>true\<close> and a list of strings under the directories
  key sets \<open>SkipDirs\<close> to that list. With the flag absent or \<open>false\<close> it leaves the item as
  it is, whatever is under the directories key; on an item whose prefix set is empty (as
  before any configuration) the prefix set is then still empty and the filter stage
  returns every diff unchanged.
\<close>

theorem Configure_sets_prefixes:
  "(facts ConfigTreeDiffSkipBlacklist = Some (BoolVal True)
      \<and> facts ConfigTreeDiffBlacklistedDirs = Some (StringsVal dirs)
    \<longrightarrow> Configure td facts = Inr (td\<lparr>SkipDirs := dirs\<rparr>))
 \<and> (facts ConfigTreeDiffSkipBlacklist = None
      \<or> facts ConfigTreeDiffSkipBlacklist = Some (BoolVal False)
    \<longrightarrow> Configure td facts = Inr td)
 \<and> ((facts ConfigTreeDiffSkipBlacklist = None
      \<or> facts ConfigTreeDiffSkipBlacklist = Some (BoolVal False)) \<and> SkipDirs td = []
    \<longrightarrow> (\<exists>td'. Configure td facts = Inr td' \<and> SkipDirs td' = []
              \<and> (\<forall>diff. filterStage (SkipDirs td') diff = diff)))"
  by (auto simp: Configure_def filterStage_def)

theorem Configure_sets_prefixes_witness:
  "Configure (exItem [])
     [ConfigTreeDiffSkipBlacklist \<mapsto> BoolVal True,
      ConfigTreeDiffBlacklistedDirs \<mapsto> StringsVal defaultBlacklistedDirs]
     = Inr (exItem defaultBlacklistedDirs)
 \<and> Configure (exItem [])
     [ConfigTreeDiffSkipBlacklist \<mapsto> BoolVal False,
      ConfigTreeDiffBlacklistedDirs \<mapsto> StringsVal defaultBlacklistedDirs]
     = Inr (exItem [])
 \<and> Configure (exItem []) [ConfigTreeDiffBlacklistedDirs \<mapsto> StringsVal defaultBlacklistedDirs]
     = Inr (exItem [])"
proof -
  let ?on = "[ConfigTreeDiffSkipBlacklist \<mapsto> BoolVal True,
              ConfigTreeDiffBlacklistedDirs \<mapsto> StringsVal defaultBlacklistedDirs]"
  let ?off = "[ConfigTreeDiffSkipBlacklist \<mapsto> BoolVal False,
               ConfigTreeDiffBlacklistedDirs \<mapsto> StringsVal defaultBlacklistedDirs]"
  let ?none = "[ConfigTreeDiffBlacklistedDirs \<mapsto> StringsVal defaultBlacklistedDirs]"
  have ne: "ConfigTreeDiffSkipBlacklist \<noteq> ConfigTreeDiffBlacklistedDirs"
    by (simp add: ConfigTreeDiffSkipBlacklist_def ConfigTreeDiffBlacklistedDirs_def)
  have on: "?on ConfigTreeDiffSkipBlacklist = Some (BoolVal True)
      \<and> ?on ConfigTreeDiffBlacklistedDirs = Some (StringsVal defaultBlacklistedDirs)"
    using ne by simp
  have off: "?off ConfigTreeDiffSkipBlacklist = Some (BoolVal False)"
    using ne by simp
  have none: "?none ConfigTreeDiffSkipBlacklist = None"
    using ne by simp
  have "Configure (exItem []) ?on = Inr ((exItem [])\<lparr>SkipDirs := defaultBlacklistedDirs\<rparr>)"
    using Configure_sets_prefixes [of ?on defaultBlacklistedDirs "exItem []"] on by blast
  moreover have "Configure (exItem []) ?off = Inr (exItem [])"
    using Configure_sets_prefixes [of ?off defaultBlacklistedDirs "exItem []"] off by blast
  moreover have "Configure (exItem []) ?none = Inr (exItem [])"
    using Configure_sets_prefixes [of ?none defaultBlacklistedDirs "exItem []"] none by blast
  ultimately show ?thesis
    by (simp add: exItem_def)
qed

text \<open>
  C10. \<open>Configure\<close> panics exactly when the skip key is bound to a value that is not a
  \<open>bool\<close>, or the skip flag is \<open>true\<close> and the directories key is absent or bound to a
  value that is not a list of strings. Such inputs exist: a string under the skip key, the
  flag alone, the flag with a string under the directories key.
\<close>

theorem Configure_panics:
  "(Configure td facts = Inl TypeAssertionPanic)
     = ((\<exists>v. facts ConfigTreeDiffSkipBlacklist = Some v \<and> (\<forall>flag. v \<noteq> BoolVal flag))
        \<or> (facts ConfigTreeDiffSkipBlacklist = Some (BoolVal True)
            \<and> (\<forall>dirs. facts ConfigTreeDiffBlacklistedDirs \<noteq> Some (StringsVal dirs))))
 \<and> Configure td [ConfigTreeDiffSkipBlacklist \<mapsto> StringVal ''yes''] = Inl TypeAssertionPanic
 \<and> Configure td [ConfigTreeDiffSkipBlacklist \<mapsto> BoolVal True] = Inl TypeAssertionPanic
 \<and> Configure td [ConfigTreeDiffSkipBlacklist \<mapsto> BoolVal True,
                  ConfigTreeDiffBlacklistedDirs \<mapsto> StringVal ''vendor/'']
      = Inl TypeAssertionPanic"
proof -
  have ne: "ConfigTreeDiffSkipBlacklist \<noteq> ConfigTreeDiffBlacklistedDirs"
    by (simp add: ConfigTreeDiffSkipBlacklist_def ConfigTreeDiffBlacklistedDirs_def)
  have "(Configure td facts = Inl TypeAssertionPanic)
     = ((\<exists>v. facts ConfigTreeDiffSkipBlacklist = Some v \<and> (\<forall>flag. v \<noteq> BoolVal flag))
        \<or> (facts ConfigTreeDiffSkipBlacklist = Some (BoolVal True)
            \<and> (\<forall>dirs. facts ConfigTreeDiffBlacklistedDirs \<noteq> Some (StringsVal dirs))))"
    by (auto simp: Configure_def split: option.splits iface.splits)
  moreover have "Configure td [ConfigTreeDiffSkipBlacklist \<mapsto> StringVal ''yes'']
      = Inl TypeAssertionPanic"
    by (simp add: Configure_def)
  moreover have "Configure td [ConfigTreeDiffSkipBlacklist \<mapsto> BoolVal True]
      = Inl TypeAssertionPanic"
    using ne by (simp add: Configure_def)
  moreover have "Configure td [ConfigTreeDiffSkipBlacklist \<mapsto> BoolVal True,
                  ConfigTreeDiffBlacklistedDirs \<mapsto> StringVal ''vendor/'']
      = Inl TypeAssertionPanic"
    using ne by (simp add: Configure_def)
  ultimately show ?thesis by blast
qed

theorem Configure_panics_witness:
  "Configure (exItem []) [ConfigTreeDiffSkipBlacklist \<mapsto> IntVal 1] = Inl TypeAssertionPanic
 \<and> Configure (exItem []) [ConfigTreeDiffSkipBlacklist \<mapsto> BoolVal True,
                           ConfigTreeDiffBlacklistedDirs \<mapsto> NilVal] = Inl TypeAssertionPanic"
proof -
  have ne: "ConfigTreeDiffSkipBlacklist \<noteq> ConfigTreeDiffBlacklistedDirs"
    by (simp add: ConfigTreeDiffSkipBlacklist_def ConfigTreeDiffBlacklistedDirs_def)
  let ?f1 = "[ConfigTreeDiffSkipBlacklist \<mapsto> IntVal 1]"
  let ?f2 = "[ConfigTreeDiffSkipBlacklist \<mapsto> BoolVal True, ConfigTreeDiffBlacklistedDirs \<mapsto> NilVal]"
  have 1: "\<exists>v. ?f1 ConfigTreeDiffSkipBlacklist = Some v \<and> (\<forall>flag. v \<noteq> BoolVal flag)"
    by simp
  have 2: "?f2 ConfigTreeDiffSkipBlacklist = Some (BoolVal True)
            \<and> (\<forall>dirs. ?f2 ConfigTreeDiffBlacklistedDirs \<noteq> Some (StringsVal dirs))"
    using ne by simp
  from 1 Configure_panics [of "exItem []" ?f1]
  have "Configure (exItem []) ?f1 = Inl TypeAssertionPanic" by blast
  moreover from 2 Configure_panics [of "exItem []" ?f2]
  have "Configure (exItem []) ?f2 = Inl TypeAssertionPanic" by blast
  ultimately show ?thesis by simp
qed

end
